theory Spec2Isabelle
  imports Main
begin

section \<open>Block-number subscription (subscribeToNewBlock.ts)\<close>

text \<open>
  The function receives an ethers provider object (or undefined), a chain id (or
  undefined), a React dispatch function and a flag. Objects are modelled by references:
  a provider, a dispatch function and every closure the function creates is a number,
  so that \<open>provider.off\<close> can compare listeners by identity as JavaScript does.
\<close>

text \<open>
  \<open>ChainId\<close> (a numeric enum) and \<open>BlockNumberChanged\<close> are declared in files that are
  not among the sources; the action has the two fields of the object literal
  \<open>{ chainId, blockNumber }\<close> that the function builds.
\<close>

type_synonym ChainId = nat
type_synonym provider_ref = nat
type_synonym fn_ref = nat
type_synonym dispatch_ref = nat

record BlockNumberChanged =
  chainId :: ChainId
  blockNumber :: int

datatype js_error = Error string | TypeError string

text \<open>
  The closure \<open>update = (blockNumber) => dispatch({ chainId, blockNumber })\<close>: its own
  identity, the dispatch function and the chain id it captured.
\<close>

datatype listener = Update (fn_id: fn_ref) (dispatch_fn: dispatch_ref) (captured: ChainId)

text \<open>One call of a dispatch function, with the closure that made it.\<close>

record dispatch_call =
  by_fn :: fn_ref
  target :: dispatch_ref
  action :: BlockNumberChanged

text \<open>
  The part of the JavaScript world the function touches: the listener list of every
  provider (\<open>on\<close> appends at the end), the allocator of closures, the
  \<open>getBlockNumber\<close> promises that have not settled yet, each with the closure its
  fulfilment handler calls, the listener calls that block events have scheduled with
  \<open>setTimeout\<close> and that have not run yet (earliest first, each with the block number it
  will be called with), the calls of dispatch functions in order, and what
  \<open>console.error\<close> printed.
\<close>

record world =
  events :: "provider_ref \<Rightarrow> (string \<times> listener) list"
  next_fn :: fn_ref
  pending :: "(provider_ref \<times> listener) list"
  timers :: "(listener \<times> int) list"
  dispatched :: "dispatch_call list"
  console_error :: "js_error list"

text \<open>
  The provider is an object of the ethers library (version 5), which the function only
  calls. Its event emitter is modelled as that library has it: \<open>on\<close> adds the listener
  after those already there; \<open>off\<close> takes away the first registration of that listener
  for the event; \<open>emit\<close> calls no listener itself but schedules, with
  \<open>setTimeout(..., 0)\<close>, one call of every listener registered for the event at that
  moment, in order. The scheduled calls run later, earliest first, whether or not the
  listener is still registered by then.
\<close>

definition provider_on :: "provider_ref \<Rightarrow> string \<Rightarrow> listener \<Rightarrow> world \<Rightarrow> world" where
  "provider_on p tag l w = w\<lparr>events := (events w)(p := events w p @ [(tag, l)])\<rparr>"

text \<open>\<open>off\<close> removes the first listener of that event that is the same function object.\<close>

fun remove_first :: "string \<Rightarrow> fn_ref \<Rightarrow> (string \<times> listener) list \<Rightarrow> (string \<times> listener) list" where
  "remove_first tag r [] = []"
| "remove_first tag r (e # es) =
     (if fst e = tag \<and> fn_id (snd e) = r then es else e # remove_first tag r es)"

definition provider_off :: "provider_ref \<Rightarrow> string \<Rightarrow> listener \<Rightarrow> world \<Rightarrow> world" where
  "provider_off p tag l w = w\<lparr>events := (events w)(p := remove_first tag (fn_id l) (events w p))\<rparr>"

text \<open>Calling the closure \<open>update\<close> with a block number: one call of its dispatch function.\<close>

definition call_update :: "listener \<Rightarrow> int \<Rightarrow> world \<Rightarrow> world" where
  "call_update l n w =
     w\<lparr>dispatched := dispatched w @
        [\<lparr>by_fn = fn_id l, target = dispatch_fn l,
          action = \<lparr>chainId = captured l, blockNumber = n\<rparr>\<rparr>]\<rparr>"

text \<open>
  \<open>provider.getBlockNumber().then(ok, err)\<close>: the request is issued and its promise is
  pending; neither handler runs before the promise settles.
\<close>

definition getBlockNumber_then :: "provider_ref \<Rightarrow> listener \<Rightarrow> world \<Rightarrow> world" where
  "getBlockNumber_then p l w = w\<lparr>pending := pending w @ [(p, l)]\<rparr>"

text \<open>The function returned to the caller: \<open>() => { provider.off('block', update) }\<close> or \<open>() => undefined\<close>.\<close>

datatype cleanup = Off_block provider_ref listener | Noop

fun run_cleanup :: "cleanup \<Rightarrow> world \<Rightarrow> world" where
  "run_cleanup (Off_block p l) w = provider_off p ''block'' l w"
| "run_cleanup Noop w = w"

definition subscribeToNewBlock ::
  "provider_ref option \<Rightarrow> ChainId option \<Rightarrow> dispatch_ref \<Rightarrow> bool \<Rightarrow> world \<Rightarrow> cleanup \<times> world" where
  "subscribeToNewBlock provider chain_id dispatch isActive w =
     (if provider \<noteq> None \<and> chain_id \<noteq> None \<and> isActive then
        let p = the provider;
            update = Update (next_fn w) dispatch (the chain_id);
            w1 = w\<lparr>next_fn := Suc (next_fn w)\<rparr>;
            w2 = provider_on p ''block'' update w1;
            w3 = getBlockNumber_then p update w2
        in (Off_block p update, w3)
      else (Noop, w))"

subsection \<open>What happens afterwards\<close>

text \<open>
  The listeners registered for the \<open>block\<close> event of a provider, in registration order,
  and the provider emitting the event with a block number: the calls are scheduled, none
  is made.
\<close>

definition block_listeners :: "provider_ref \<Rightarrow> world \<Rightarrow> listener list" where
  "block_listeners p w = map snd (filter (\<lambda>e. fst e = ''block'') (events w p))"

definition emit_block :: "provider_ref \<Rightarrow> int \<Rightarrow> world \<Rightarrow> world" where
  "emit_block p n w = w\<lparr>timers := timers w @ map (\<lambda>l. (l, n)) (block_listeners p w)\<rparr>"

text \<open>
  The earliest scheduled call runs (nothing happens when none is scheduled), and all the
  scheduled calls run, in order.
\<close>

definition fire :: "world \<Rightarrow> world" where
  "fire w =
     (case timers w of
        [] \<Rightarrow> w
      | t # ts \<Rightarrow> call_update (fst t) (snd t) (w\<lparr>timers := ts\<rparr>))"

definition fire_all :: "world \<Rightarrow> world" where
  "fire_all w = foldl (\<lambda>v t. call_update (fst t) (snd t) v) (w\<lparr>timers := []\<rparr>) (timers w)"

text \<open>
  The i-th pending \<open>getBlockNumber\<close> promise settles: fulfilled with a block number, it
  calls \<open>update\<close>; rejected, it calls \<open>console.error\<close>.
\<close>

definition settle :: "nat \<Rightarrow> js_error + int \<Rightarrow> world \<Rightarrow> world" where
  "settle i r w =
     (if i < length (pending w) then
        let l = snd (pending w ! i);
            w1 = w\<lparr>pending := take i (pending w) @ drop (Suc i) (pending w)\<rparr>
        in (case r of
              Inr n \<Rightarrow> call_update l n w1
            | Inl e \<Rightarrow> w1\<lparr>console_error := console_error w1 @ [e]\<rparr>)
      else w)"

text \<open>
  Anything that can happen to the world: a component subscribes, a returned function is
  called, a provider emits a block event, the earliest scheduled listener call runs, a
  pending promise settles.
\<close>

datatype step =
    Subscribe "provider_ref option" "ChainId option" dispatch_ref bool
  | Run cleanup
  | Block provider_ref int
  | Fire
  | Settle nat "js_error + int"

fun do_step :: "step \<Rightarrow> world \<Rightarrow> world" where
  "do_step (Subscribe provider chain_id dispatch isActive) w =
     snd (subscribeToNewBlock provider chain_id dispatch isActive w)"
| "do_step (Run c) w = run_cleanup c w"
| "do_step (Block p n) w = emit_block p n w"
| "do_step Fire w = fire w"
| "do_step (Settle i r) w = settle i r w"

fun run :: "step list \<Rightarrow> world \<Rightarrow> world" where
  "run [] w = w"
| "run (s # ss) w = run ss (do_step s w)"

definition init_world :: world where
  "init_world =
     \<lparr>events = (\<lambda>_. []), next_fn = 0, pending = [], timers = [], dispatched = [],
      console_error = []\<rparr>"

text \<open>
  Invariants of the world used below. Every closure in a listener list was allocated
  before: \<open>next_fn\<close> is above its reference.
\<close>

definition allocated :: "world \<Rightarrow> bool" where
  "allocated w = (\<forall>q. \<forall>e \<in> set (events w q). fn_id (snd e) < next_fn w)"

text \<open>
  The closure \<open>l\<close> belongs to one subscription to the event \<open>t\<close> of provider \<open>p\<close>:
  it is registered nowhere else, under no other event, and at most once.
\<close>

definition owned :: "string \<Rightarrow> provider_ref \<Rightarrow> listener \<Rightarrow> world \<Rightarrow> bool" where
  "owned t p l w =
     (fn_id l < next_fn w \<and>
      (\<forall>q. \<forall>e \<in> set (events w q). fn_id (snd e) = fn_id l \<longrightarrow> q = p \<and> e = (t, l)) \<and>
      count_list (events w p) (t, l) \<le> 1)"

text \<open>The closure with reference \<open>r\<close> exists and no provider has it as a listener.\<close>

definition unregistered :: "fn_ref \<Rightarrow> world \<Rightarrow> bool" where
  "unregistered r w =
     (r < next_fn w \<and> (\<forall>q. \<forall>e \<in> set (events w q). fn_id (snd e) \<noteq> r))"

text \<open>The dispatch calls made by the closure with reference \<open>r\<close>.\<close>

definition calls_by :: "fn_ref \<Rightarrow> world \<Rightarrow> dispatch_call list" where
  "calls_by r w = filter (\<lambda>x. by_fn x = r) (dispatched w)"

text \<open>
  What can still make the closure with reference \<open>r\<close> dispatch when it is registered
  nowhere: the calls of it that are scheduled, and the requests that will call it when
  they are answered. \<open>owed\<close> counts them.
\<close>

definition scheduled_for :: "fn_ref \<Rightarrow> world \<Rightarrow> (listener \<times> int) list" where
  "scheduled_for r w = filter (\<lambda>t. fn_id (fst t) = r) (timers w)"

definition pending_for :: "fn_ref \<Rightarrow> world \<Rightarrow> (provider_ref \<times> listener) list" where
  "pending_for r w = filter (\<lambda>x. fn_id (snd x) = r) (pending w)"

definition owed :: "fn_ref \<Rightarrow> world \<Rightarrow> nat" where
  "owed r w = length (scheduled_for r w) + length (pending_for r w)"

text \<open>A step that is not a call of \<open>off\<close> for the closure with reference \<open>r\<close>.\<close>

fun foreign_step :: "fn_ref \<Rightarrow> step \<Rightarrow> bool" where
  "foreign_step r (Run (Off_block q l)) = (fn_id l \<noteq> r)"
| "foreign_step r s = True"

section \<open>WalletConnect connector (wallet-connect/src/index.ts)\<close>

subsection \<open>The built-in parseInt\<close>

text \<open>
  A JavaScript string is its sequence of UTF-16 code units; \<open>js\<close> gives the code units
  of a literal whose characters are below 256.
\<close>

type_synonym js_string = "nat list"

definition js :: "string \<Rightarrow> js_string" where
  "js s = map of_char s"

text \<open>
  The numbers \<open>parseInt\<close> can return: NaN, a double whose value is an integer (with its
  sign, so that \<open>-0\<close> is \<open>Finite Minus 0\<close>), and the two infinities.
\<close>

datatype sign = Plus | Minus

datatype js_number = NaN | Finite sign nat | Infinite sign

text \<open>White space and line terminators of ECMAScript, which \<open>parseInt\<close> skips.\<close>

definition is_white :: "nat \<Rightarrow> bool" where
  "is_white c =
     (c \<in> {9, 10, 11, 12, 13, 32, 160, 5760, 8232, 8233, 8239, 8287, 12288, 65279} \<or>
      (8192 \<le> c \<and> c \<le> 8202))"

definition digit_val :: "nat \<Rightarrow> nat option" where
  "digit_val c =
     (if 48 \<le> c \<and> c \<le> 57 then Some (c - 48)
      else if 97 \<le> c \<and> c \<le> 122 then Some (c - 87)
      else if 65 \<le> c \<and> c \<le> 90 then Some (c - 55)
      else None)"

definition radix_digit :: "nat \<Rightarrow> nat \<Rightarrow> nat option" where
  "radix_digit R c =
     (case digit_val c of None \<Rightarrow> None | Some v \<Rightarrow> if v < R then Some v else None)"

text \<open>
  The double nearest to a positive integer, ties to the even significand
  (53 bits); \<open>None\<close> when that is \<open>2^1024\<close> or more, which is infinity.
\<close>

fun bitlen :: "nat \<Rightarrow> nat" where
  "bitlen n = (if n = 0 then 0 else Suc (bitlen (n div 2)))"

declare bitlen.simps [simp del]

definition to_double :: "nat \<Rightarrow> nat option" where
  "to_double m =
     (if m < 2 ^ 53 then Some m
      else
        let k = bitlen m - 53;
            q = m div 2 ^ k;
            r = m mod 2 ^ k;
            q' = (if 2 ^ k < 2 * r \<or> (2 * r = 2 ^ k \<and> odd q) then q + 1 else q)
        in if 2 ^ 1024 \<le> q' * 2 ^ k then None else Some (q' * 2 ^ k))"

text \<open>
  The integer that a list of digits denotes in radix \<open>R\<close>. In radix 10 an engine may
  replace every significant digit after the 20th by 0; \<open>approx\<close> says whether it does.
\<close>

definition mathInt :: "bool \<Rightarrow> nat \<Rightarrow> nat list \<Rightarrow> nat" where
  "mathInt approx R ds =
     (let sig = dropWhile (\<lambda>d. d = 0) ds;
          ds' = (if approx \<and> R = 10 \<and> 20 < length sig
                 then take 20 sig @ replicate (length sig - 20) 0 else sig)
      in foldl (\<lambda>a d. a * R + d) 0 ds')"

text \<open>
  \<open>parseInt(string)\<close> with no radix, as ECMAScript defines it: leading white space is
  skipped, a sign is read, a prefix \<open>0x\<close> or \<open>0X\<close> selects radix 16 (radix 10
  otherwise), the longest run of digits of that radix is the number, and no digit at
  all gives NaN. Zero keeps the sign; any other integer is rounded to a double.
\<close>

definition parseInt :: "bool \<Rightarrow> js_string \<Rightarrow> js_number" where
  "parseInt approx inputString =
     (let S = dropWhile is_white inputString;
          sign = (if S \<noteq> [] \<and> hd S = 45 then Minus else Plus);
          S1 = (if S \<noteq> [] \<and> (hd S = 43 \<or> hd S = 45) then tl S else S);
          hex = (take 2 S1 = [48, 120] \<or> take 2 S1 = [48, 88]);
          R = (if hex then 16 else 10);
          S2 = (if hex then drop 2 S1 else S1);
          Z = takeWhile (\<lambda>c. radix_digit R c \<noteq> None) S2
      in if Z = [] then NaN
         else
           let m = mathInt approx R (map (\<lambda>c. the (radix_digit R c)) Z)
           in if m = 0 then Finite sign 0
              else case to_double m of None \<Rightarrow> Infinite sign | Some d \<Rightarrow> Finite sign d)"

subsection \<open>The connector\<close>

type_synonym obj_ref = nat

text \<open>
  A \<open>providers.Web3Provider\<close> object: its own identity and the WalletConnectProvider
  it wraps.
\<close>

datatype web3_provider = Web3Provider (self: obj_ref) (wrapped: obj_ref)

datatype ConnectorUpdateData =
  ConnectorUpdateData (update_chainId: js_number) (update_accounts: "js_string list")

text \<open>What the connector asks of the libraries it is built on.\<close>

datatype ext_call =
    New_WalletConnectProvider obj_ref
  | New_Web3Provider obj_ref obj_ref
  | Enable obj_ref
  | Send obj_ref string

text \<open>
  The connector object (\<open>provider\<close>, and the data emitted on its \<open>update\<close> event, in
  order) with the part of the world around it: the object allocator, the calls made to
  the libraries and the console, each line with its level.
\<close>

record wc_state =
  provider :: "web3_provider option"
  update :: "ConnectorUpdateData list"
  next_obj :: obj_ref
  calls :: "ext_call list"
  console :: "(string \<times> js_error) list"

text \<open>
  What the libraries and the engine answer during one call of a method: whether the
  constructor of WalletConnectProvider throws, how the promises of \<open>enable()\<close> and of
  the two requests settle (\<open>Inl\<close> is a rejection), and whether the engine's
  \<open>parseInt\<close> approximates long decimal numbers.
\<close>

record wc_env =
  construct :: "js_error option"
  enable :: "js_error + js_string list"
  eth_chainId :: "js_error + js_string"
  eth_accounts :: "js_error + js_string list"
  approximates :: bool

definition init :: "wc_env \<Rightarrow> wc_state \<Rightarrow> (js_error + unit) \<times> wc_state" where
  "init env s =
     (if provider s \<noteq> None then (Inr (), s)
      else case construct env of
          Some e \<Rightarrow> (Inl e, s)
        | None \<Rightarrow>
            let walletConnectProvider = next_obj s;
                web3 = Web3Provider (Suc (next_obj s)) walletConnectProvider;
                s1 = s\<lparr>provider := Some web3,
                       next_obj := next_obj s + 2,
                       calls := calls s @ [New_WalletConnectProvider walletConnectProvider,
                                           New_Web3Provider (self web3) walletConnectProvider]\<rparr>;
                s2 = s1\<lparr>calls := calls s1 @ [Enable (wrapped web3)]\<rparr>
            in (case enable env of Inl e \<Rightarrow> (Inl e, s2) | Inr _ \<Rightarrow> (Inr (), s2)))"

text \<open>\<open>this.provider!.send(method, [])\<close>: a TypeError when \<open>this.provider\<close> is undefined.\<close>

definition send :: "string \<Rightarrow> js_error + 'a \<Rightarrow> wc_state \<Rightarrow> (js_error + 'a) \<times> wc_state" where
  "send method response s =
     (case provider s of
        None \<Rightarrow> (Inl (TypeError ''Cannot read properties of undefined''), s)
      | Some web3 \<Rightarrow> (response, s\<lparr>calls := calls s @ [Send (self web3) method]\<rparr>))"

text \<open>
  Modelled from the spec: the class \<open>ConnectorEvent\<close> of the core package is not among
  the sources. \<open>this.update.emit(data)\<close> is taken to emit one event carrying the data,
  recorded at the end of the events emitted so far.
\<close>

definition emit :: "ConnectorUpdateData \<Rightarrow> wc_state \<Rightarrow> wc_state" where
  "emit d s = s\<lparr>update := update s @ [d]\<rparr>"

text \<open>
  The body of the \<open>try\<close> block, the same four statements in \<open>connectEagerly\<close> and in
  \<open>activate\<close>; \<open>Inl\<close> is the exception that reaches the \<open>catch\<close>.
\<close>

definition try_block :: "wc_env \<Rightarrow> wc_state \<Rightarrow> (js_error + unit) \<times> wc_state" where
  "try_block env s =
     (case init env s of
        (Inl e, s1) \<Rightarrow> (Inl e, s1)
      | (Inr _, s1) \<Rightarrow>
          (case send ''eth_chainId'' (eth_chainId env) s1 of
             (Inl e, s2) \<Rightarrow> (Inl e, s2)
           | (Inr chain, s2) \<Rightarrow>
               (case send ''eth_accounts'' (eth_accounts env) s2 of
                  (Inl e, s3) \<Rightarrow> (Inl e, s3)
                | (Inr accs, s3) \<Rightarrow>
                    (Inr (),
                     emit (ConnectorUpdateData (parseInt (approximates env) chain) accs) s3))))"

definition connectEagerly :: "wc_env \<Rightarrow> wc_state \<Rightarrow> (js_error + unit) \<times> wc_state" where
  "connectEagerly env s =
     (case try_block env s of
        (Inl e, s') \<Rightarrow> (Inr (), s'\<lparr>console := console s' @ [(''debug'', e)]\<rparr>)
      | (Inr _, s') \<Rightarrow> (Inr (), s'))"

definition activate :: "wc_env \<Rightarrow> wc_state \<Rightarrow> (js_error + unit) \<times> wc_state" where
  "activate env s =
     (case try_block env s of
        (Inl e, s') \<Rightarrow>
          (Inl (Error ''Could not activate connector''),
           s'\<lparr>console := console s' @ [(''log'', e)]\<rparr>)
      | (Inr _, s') \<Rightarrow> (Inr (), s'))"

definition deactivate :: "wc_state \<Rightarrow> (js_error + unit) \<times> wc_state" where
  "deactivate s = (Inr (), s\<lparr>provider := None\<rparr>)"

text \<open>A sequence of method calls on one connector, each with the answers it gets.\<close>

datatype wc_op = Activate wc_env | ConnectEagerly wc_env | Deactivate

fun wc_step :: "wc_op \<Rightarrow> wc_state \<Rightarrow> wc_state" where
  "wc_step (Activate env) s = snd (activate env s)"
| "wc_step (ConnectEagerly env) s = snd (connectEagerly env s)"
| "wc_step Deactivate s = snd (deactivate s)"

fun wc_run :: "wc_op list \<Rightarrow> wc_state \<Rightarrow> wc_state" where
  "wc_run [] s = s"
| "wc_run (x # xs) s = wc_run xs (wc_step x s)"

definition is_construction :: "ext_call \<Rightarrow> bool" where
  "is_construction c =
     (case c of New_WalletConnectProvider _ \<Rightarrow> True | New_Web3Provider _ _ \<Rightarrow> True
      | Enable _ \<Rightarrow> True | Send _ _ \<Rightarrow> False)"

definition new_connector :: wc_state where
  "new_connector = \<lparr>provider = None, update = [], next_obj = 0, calls = [], console = []\<rparr>"

text \<open>
  Every object the connector holds was allocated before. It holds for a new connector
  and every method keeps it.
\<close>

definition wc_allocated :: "wc_state \<Rightarrow> bool" where
  "wc_allocated s = (case provider s of None \<Rightarrow> True | Some web3 \<Rightarrow> self web3 < next_obj s)"

text \<open>
  Concrete answers of the libraries: everything succeeds on chain \<open>0x89\<close>; everything
  succeeds and the chain id is the decimal string of \<open>2^53 + 1\<close>; the
  \<open>eth_chainId\<close> request is rejected; the user closes the pairing dialog, so that
  \<open>enable()\<close> is rejected. And the connector after one successful \<open>activate\<close>.
\<close>

definition answers_ok :: wc_env where
  "answers_ok = \<lparr>construct = None, enable = Inr [js ''0xabc''],
                 eth_chainId = Inr (js ''0x89''), eth_accounts = Inr [js ''0xabc''],
                 approximates = False\<rparr>"

definition answers_big :: wc_env where
  "answers_big = \<lparr>construct = None, enable = Inr [js ''0xabc''],
                  eth_chainId = Inr (js ''9007199254740993''), eth_accounts = Inr [js ''0xabc''],
                  approximates = False\<rparr>"

definition answers_rejected :: wc_env where
  "answers_rejected = \<lparr>construct = None, enable = Inr [js ''0xabc''],
                       eth_chainId = Inl (Error ''rejected''), eth_accounts = Inr [js ''0xabc''],
                       approximates = False\<rparr>"

definition answers_enable_rejected :: wc_env where
  "answers_enable_rejected = \<lparr>construct = None, enable = Inl (Error ''User closed modal''),
                       eth_chainId = Inr (js ''0x89''), eth_accounts = Inr [js ''0xabc''],
                       approximates = False\<rparr>"

definition connected_connector :: wc_state where
  "connected_connector =
     \<lparr>provider = Some (Web3Provider 1 0),
      update = [ConnectorUpdateData (Finite Plus 137) [js ''0xabc'']],
      next_obj = 2,
      calls = [New_WalletConnectProvider 0, New_Web3Provider 1 0, Enable 0,
               Send 1 ''eth_chainId'', Send 1 ''eth_accounts''],
      console = []\<rparr>"

section \<open>Properties of the subscription\<close>

lemma dispatched_foldl_call_update:
  "dispatched (foldl (\<lambda>v t. call_update (fst t) (snd t) v) w ts) =
   dispatched w @ map (\<lambda>t. \<lparr>by_fn = fn_id (fst t), target = dispatch_fn (fst t),
                              action = \<lparr>chainId = captured (fst t), blockNumber = snd t\<rparr>\<rparr>) ts"
  by (induction ts arbitrary: w) (simp_all add: call_update_def)

lemma dispatched_fire_all:
  "dispatched (fire_all w) =
   dispatched w @ map (\<lambda>t. \<lparr>by_fn = fn_id (fst t), target = dispatch_fn (fst t),
                              action = \<lparr>chainId = captured (fst t), blockNumber = snd t\<rparr>\<rparr>) (timers w)"
  by (simp add: fire_all_def dispatched_foldl_call_update)

lemma subscribeToNewBlock_active:
  "subscribeToNewBlock (Some p) (Some c) d True w =
     (Off_block p (Update (next_fn w) d c),
      w\<lparr>events := (events w)(p := events w p @ [(''block'', Update (next_fn w) d c)]),
        next_fn := Suc (next_fn w),
        pending := pending w @ [(p, Update (next_fn w) d c)]\<rparr>)"
  by (simp add: subscribeToNewBlock_def provider_on_def getBlockNumber_then_def Let_def)

lemma subscribeToNewBlock_inactive:
  "\<not> (prov \<noteq> None \<and> chain_id \<noteq> None \<and> isActive) \<Longrightarrow>
   subscribeToNewBlock prov chain_id d isActive w = (Noop, w)"
  by (auto simp add: subscribeToNewBlock_def)

text \<open>
  Claim C1. \<open>subscribeToNewBlock\<close> registers a \<open>block\<close> listener on the provider
  exactly when the provider is defined, the chain id is not undefined and \<open>isActive\<close>
  is true. In that case the listener is appended to the provider's listeners, the call
  itself dispatches nothing and schedules nothing, and every block event of the provider
  then schedules, after the calls of the listeners registered before, one call of the
  listener with the block number of the event; when the scheduled calls run, that one
  makes one call of \<open>dispatch\<close> with the action of the captured chain id and the block
  number. Otherwise the world is left as it was (no listener, no pending request, so no
  later dispatch), and the function returned does nothing.
\<close>

theorem subscribeToNewBlock_registers_iff:
  "(prov \<noteq> None \<and> chain_id \<noteq> None \<and> isActive \<longrightarrow>
      (let p = the prov;
           upd = Update (next_fn w) d (the chain_id);
           w' = snd (subscribeToNewBlock prov chain_id d isActive w)
       in fst (subscribeToNewBlock prov chain_id d isActive w) = Off_block p upd \<and>
          events w' = (events w)(p := events w p @ [(''block'', upd)]) \<and>
          dispatched w' = dispatched w \<and>
          timers w' = timers w \<and>
          (\<forall>n. timers (emit_block p n w') = timers (emit_block p n w) @ [(upd, n)] \<and>
               dispatched (emit_block p n w') = dispatched w \<and>
               dispatched (fire_all (emit_block p n w')) =
                 dispatched (fire_all (emit_block p n w)) @
                   [\<lparr>by_fn = next_fn w, target = d,
                     action = \<lparr>chainId = the chain_id, blockNumber = n\<rparr>\<rparr>]))) \<and>
   (\<not> (prov \<noteq> None \<and> chain_id \<noteq> None \<and> isActive) \<longrightarrow>
      subscribeToNewBlock prov chain_id d isActive w = (Noop, w) \<and>
      (\<forall>v. run_cleanup Noop v = v) \<and>
      (\<forall>ss. dispatched (run ss (snd (subscribeToNewBlock prov chain_id d isActive w))) =
            dispatched (run ss w))) \<and>
   ((events (snd (subscribeToNewBlock prov chain_id d isActive w)) \<noteq> events w) =
      (prov \<noteq> None \<and> chain_id \<noteq> None \<and> isActive))"
proof (cases "prov \<noteq> None \<and> chain_id \<noteq> None \<and> isActive")
  case True
  then obtain p c where pc: "prov = Some p" "chain_id = Some c" "isActive" by auto
  have neq: "(events w)(p := events w p @ [(''block'', Update (next_fn w) d c)]) \<noteq> events w"
  proof
    assume "(events w)(p := events w p @ [(''block'', Update (next_fn w) d c)]) = events w"
    then have "((events w)(p := events w p @ [(''block'', Update (next_fn w) d c)])) p = events w p"
      by simp
    then show False by simp
  qed
  show ?thesis
    using pc neq
    by (simp add: subscribeToNewBlock_active dispatched_fire_all emit_block_def
          block_listeners_def Let_def)
next
  case False
  have "subscribeToNewBlock prov chain_id d isActive w = (Noop, w)"
    using False by (rule subscribeToNewBlock_inactive)
  with False show ?thesis
    by auto
qed

theorem subscribeToNewBlock_registers_iff_witness:
  "fst (subscribeToNewBlock (Some 3) (Some 1) 7 True init_world) = Off_block 3 (Update 0 7 1) \<and>
   events (snd (subscribeToNewBlock (Some 3) (Some 1) 7 True init_world)) 3 =
     [(''block'', Update 0 7 1)] \<and>
   timers (emit_block 3 100 (snd (subscribeToNewBlock (Some 3) (Some 1) 7 True init_world))) =
     [(Update 0 7 1, 100)] \<and>
   dispatched (fire_all
       (emit_block 3 100 (snd (subscribeToNewBlock (Some 3) (Some 1) 7 True init_world)))) =
     [\<lparr>by_fn = 0, target = 7, action = \<lparr>chainId = 1, blockNumber = 100\<rparr>\<rparr>] \<and>
   subscribeToNewBlock None (Some 1) 7 True init_world = (Noop, init_world) \<and>
   subscribeToNewBlock (Some 3) None 7 True init_world = (Noop, init_world) \<and>
   subscribeToNewBlock (Some 3) (Some 1) 7 False init_world = (Noop, init_world)"
proof -
  have e: "timers (emit_block 3 100 init_world) = []"
    "dispatched (fire_all (emit_block 3 100 init_world)) = []"
    "next_fn init_world = 0"
    by (simp_all add: init_world_def emit_block_def block_listeners_def dispatched_fire_all)
  show ?thesis
    using e
      subscribeToNewBlock_registers_iff [where prov = "Some 3" and chain_id = "Some 1"
          and isActive = True and d = 7 and w = init_world]
      subscribeToNewBlock_registers_iff [where prov = None and chain_id = "Some 1"
          and isActive = True and d = 7 and w = init_world]
      subscribeToNewBlock_registers_iff [where prov = "Some 3" and chain_id = None
          and isActive = True and d = 7 and w = init_world]
      subscribeToNewBlock_registers_iff [where prov = "Some 3" and chain_id = "Some 1"
          and isActive = False and d = 7 and w = init_world]
    by (simp add: Let_def init_world_def)
qed

subsection \<open>Steps keep the invariants\<close>

lemma call_update_fields [simp]:
  "events (call_update l n w) = events w"
  "next_fn (call_update l n w) = next_fn w"
  "pending (call_update l n w) = pending w"
  "timers (call_update l n w) = timers w"
  "console_error (call_update l n w) = console_error w"
  by (simp_all add: call_update_def)

lemma emit_block_fields [simp]:
  "events (emit_block p n w) = events w"
  "next_fn (emit_block p n w) = next_fn w"
  "pending (emit_block p n w) = pending w"
  "dispatched (emit_block p n w) = dispatched w"
  "console_error (emit_block p n w) = console_error w"
  by (simp_all add: emit_block_def)

lemma fire_fields [simp]:
  "events (fire w) = events w"
  "next_fn (fire w) = next_fn w"
  "pending (fire w) = pending w"
  "console_error (fire w) = console_error w"
  by (simp_all add: fire_def split: list.splits)

lemma settle_fields [simp]:
  "events (settle i r w) = events w"
  "next_fn (settle i r w) = next_fn w"
  "timers (settle i r w) = timers w"
  by (simp_all add: settle_def Let_def split: sum.splits)

lemma set_remove_first: "set (remove_first t r es) \<subseteq> set es"
  by (induction es) auto

lemma count_remove_first: "count_list (remove_first t r es) x \<le> count_list es x"
  by (induction es) auto

lemma remove_first_append_fresh:
  "\<forall>e \<in> set es. fn_id (snd e) \<noteq> fn_id l \<Longrightarrow> remove_first t (fn_id l) (es @ [(t, l)]) = es"
  by (induction es) auto

lemma remove_first_is_remove1:
  "\<forall>e \<in> set es. fn_id (snd e) = fn_id l \<longrightarrow> e = (t, l) \<Longrightarrow>
   remove_first t (fn_id l) es = remove1 (t, l) es"
  by (induction es) auto

lemma remove_first_none_left:
  "\<forall>e \<in> set es. fn_id (snd e) = fn_id l \<longrightarrow> e = (t, l) \<Longrightarrow> count_list es (t, l) \<le> 1 \<Longrightarrow>
   e \<in> set (remove_first t (fn_id l) es) \<Longrightarrow> fn_id (snd e) \<noteq> fn_id l"
proof (induction es)
  case Nil
  then show ?case by simp
next
  case (Cons a es)
  show ?case
  proof (cases "a = (t, l)")
    case True
    with Cons.prems have "count_list es (t, l) = 0" and "e \<in> set es" by auto
    then have "(t, l) \<notin> set es" by (simp add: count_list_0_iff)
    with Cons.prems \<open>e \<in> set es\<close> show ?thesis by auto
  next
    case False
    with Cons.prems have a: "fn_id (snd a) \<noteq> fn_id l" by auto
    with Cons.prems False have "e = a \<or> e \<in> set (remove_first t (fn_id l) es)" by auto
    moreover have "count_list es (t, l) \<le> 1" using Cons.prems False by auto
    ultimately show ?thesis using Cons.IH Cons.prems a by auto
  qed
qed

lemma ownedI:
  "fn_id l < next_fn w \<Longrightarrow>
   (\<And>q e. e \<in> set (events w q) \<Longrightarrow> fn_id (snd e) = fn_id l \<Longrightarrow> q = p \<and> e = (t, l)) \<Longrightarrow>
   count_list (events w p) (t, l) \<le> 1 \<Longrightarrow> owned t p l w"
  unfolding owned_def by blast

lemma owned_lt: "owned t p l w \<Longrightarrow> fn_id l < next_fn w"
  unfolding owned_def by (elim conjE)

lemma owned_only:
  assumes "owned t p l w" and "e \<in> set (events w q)" and "fn_id (snd e) = fn_id l"
  shows "q = p \<and> e = (t, l)"
proof -
  from assms(1)
  have "\<forall>q. \<forall>e \<in> set (events w q). fn_id (snd e) = fn_id l \<longrightarrow> q = p \<and> e = (t, l)"
    unfolding owned_def by (elim conjE)
  then have "\<forall>e \<in> set (events w q). fn_id (snd e) = fn_id l \<longrightarrow> q = p \<and> e = (t, l)" ..
  then have "fn_id (snd e) = fn_id l \<longrightarrow> q = p \<and> e = (t, l)" using assms(2) ..
  then show ?thesis using assms(3) ..
qed

lemma owned_once: "owned t p l w \<Longrightarrow> count_list (events w p) (t, l) \<le> 1"
  unfolding owned_def by (elim conjE)

lemma count_list_snoc_other: "y \<noteq> x \<Longrightarrow> count_list (xs @ [y]) x = count_list xs x"
  by (induction xs) simp_all

text \<open>Registering a closure allocated later keeps the ownership of an earlier one.\<close>

lemma owned_on_later:
  assumes o: "owned t p l w" and later: "next_fn w \<le> fn_id l'" and nf: "next_fn w \<le> next_fn w'"
    and ev: "events w' = (events w)(p' := events w p' @ [(t', l')])"
  shows "owned t p l w'"
proof (rule ownedI)
  show "fn_id l < next_fn w'" using owned_lt [OF o] nf by simp
next
  have other: "fn_id l' \<noteq> fn_id l" using owned_lt [OF o] later by simp
  fix q e
  assume e: "e \<in> set (events w' q)" and f: "fn_id (snd e) = fn_id l"
  from e ev have "e \<in> set (events w q) \<or> e = (t', l')"
    by (cases "q = p'") auto
  with f other have "e \<in> set (events w q)" by auto
  then show "q = p \<and> e = (t, l)" using f by (rule owned_only [OF o])
next
  have "fn_id l' \<noteq> fn_id l" using owned_lt [OF o] later by simp
  then have neq: "(t', l') \<noteq> (t, l)" by auto
  have "count_list (events w' p) (t, l) = count_list (events w p) (t, l)"
    using ev count_list_snoc_other [OF neq] by (cases "p = p'") simp_all
  with owned_once [OF o] show "count_list (events w' p) (t, l) \<le> 1" by simp
qed

lemma owned_subscribe:
  assumes o: "owned t p l w"
  shows "owned t p l (snd (subscribeToNewBlock prov chain_id d isActive w))"
proof (cases "prov \<noteq> None \<and> chain_id \<noteq> None \<and> isActive")
  case True
  then obtain p' c where pc: "prov = Some p'" "chain_id = Some c" "isActive = True" by auto
  have "owned t p l (snd (subscribeToNewBlock (Some p') (Some c) d True w))"
    by (rule owned_on_later [OF o, where l' = "Update (next_fn w) d c"])
       (simp_all add: subscribeToNewBlock_active)
  with pc show ?thesis by simp
next
  case False
  then have "subscribeToNewBlock prov chain_id d isActive w = (Noop, w)"
    by (rule subscribeToNewBlock_inactive)
  with o show ?thesis by simp
qed

lemma owned_off:
  assumes o: "owned t p l w"
  shows "owned t p l (provider_off p' t' l' w)"
proof (rule ownedI)
  show "fn_id l < next_fn (provider_off p' t' l' w)"
    using owned_lt [OF o] by (simp add: provider_off_def)
next
  fix q e
  assume e: "e \<in> set (events (provider_off p' t' l' w) q)" and f: "fn_id (snd e) = fn_id l"
  have "e \<in> set (events w q)"
  proof (cases "q = p'")
    case True
    with e have "e \<in> set (remove_first t' (fn_id l') (events w p'))"
      by (simp add: provider_off_def)
    with True show ?thesis using set_remove_first by fast
  next
    case False
    with e show ?thesis by (simp add: provider_off_def)
  qed
  then show "q = p \<and> e = (t, l)" using f by (rule owned_only [OF o])
next
  have "count_list (events (provider_off p' t' l' w) p) (t, l) \<le> count_list (events w p) (t, l)"
    using count_remove_first [of t' "fn_id l'" "events w p" "(t, l)"]
    by (cases "p = p'") (simp_all add: provider_off_def)
  with owned_once [OF o] show "count_list (events (provider_off p' t' l' w) p) (t, l) \<le> 1"
    by simp
qed

lemma owned_same_events:
  "owned t p l w \<Longrightarrow> events w' = events w \<Longrightarrow> next_fn w' = next_fn w \<Longrightarrow> owned t p l w'"
  by (simp add: owned_def)

lemma owned_do_step: "owned t p l w \<Longrightarrow> owned t p l (do_step s w)"
proof (cases s)
  case (Subscribe prov chain_id d isActive)
  assume "owned t p l w"
  with Subscribe show ?thesis by (simp add: owned_subscribe)
next
  case (Run c)
  assume "owned t p l w"
  with Run show ?thesis by (cases c) (simp_all add: owned_off)
next
  case (Block p' n)
  assume "owned t p l w"
  with Block show ?thesis by (simp add: owned_same_events)
next
  case Fire
  assume "owned t p l w"
  with Fire show ?thesis by (simp add: owned_same_events)
next
  case (Settle i r)
  assume "owned t p l w"
  with Settle show ?thesis by (simp add: owned_same_events)
qed

lemma owned_run: "owned t p l w \<Longrightarrow> owned t p l (run ss w)"
  by (induction ss arbitrary: w) (simp_all add: owned_do_step)

lemma unregisteredI:
  "r < next_fn w \<Longrightarrow> (\<And>q e. e \<in> set (events w q) \<Longrightarrow> fn_id (snd e) \<noteq> r) \<Longrightarrow> unregistered r w"
  unfolding unregistered_def by blast

lemma unregistered_lt: "unregistered r w \<Longrightarrow> r < next_fn w"
  unfolding unregistered_def by (elim conjE)

lemma unregistered_none:
  assumes "unregistered r w" and "e \<in> set (events w q)"
  shows "fn_id (snd e) \<noteq> r"
proof -
  from assms(1) have "\<forall>q. \<forall>e \<in> set (events w q). fn_id (snd e) \<noteq> r"
    unfolding unregistered_def by (elim conjE)
  then have "\<forall>e \<in> set (events w q). fn_id (snd e) \<noteq> r" ..
  then show ?thesis using assms(2) ..
qed

lemma unregistered_subscribe:
  assumes u: "unregistered r w"
  shows "unregistered r (snd (subscribeToNewBlock prov chain_id d isActive w))"
proof (cases "prov \<noteq> None \<and> chain_id \<noteq> None \<and> isActive")
  case True
  then obtain p' c where pc: "prov = Some p'" "chain_id = Some c" "isActive = True" by auto
  let ?w' = "snd (subscribeToNewBlock (Some p') (Some c) d True w)"
  have "unregistered r ?w'"
  proof (rule unregisteredI)
    show "r < next_fn ?w'"
      using unregistered_lt [OF u] by (simp add: subscribeToNewBlock_active)
  next
    fix q e
    assume "e \<in> set (events ?w' q)"
    then have "e \<in> set (events w q) \<or> fn_id (snd e) = next_fn w"
      by (cases "q = p'") (auto simp add: subscribeToNewBlock_active)
    then show "fn_id (snd e) \<noteq> r"
    proof
      assume "e \<in> set (events w q)"
      with u show ?thesis by (rule unregistered_none)
    next
      assume "fn_id (snd e) = next_fn w"
      then show ?thesis using unregistered_lt [OF u] by simp
    qed
  qed
  with pc show ?thesis by simp
next
  case False
  then have "subscribeToNewBlock prov chain_id d isActive w = (Noop, w)"
    by (rule subscribeToNewBlock_inactive)
  with u show ?thesis by simp
qed

lemma unregistered_off:
  assumes u: "unregistered r w"
  shows "unregistered r (provider_off p' t' l' w)"
proof (rule unregisteredI)
  show "r < next_fn (provider_off p' t' l' w)"
    using unregistered_lt [OF u] by (simp add: provider_off_def)
next
  fix q e
  assume e: "e \<in> set (events (provider_off p' t' l' w) q)"
  have "e \<in> set (events w q)"
  proof (cases "q = p'")
    case True
    with e have "e \<in> set (remove_first t' (fn_id l') (events w p'))"
      by (simp add: provider_off_def)
    with True show ?thesis using set_remove_first by fast
  next
    case False
    with e show ?thesis by (simp add: provider_off_def)
  qed
  then show "fn_id (snd e) \<noteq> r" by (rule unregistered_none [OF u])
qed

lemma unregistered_same_events:
  "unregistered r w \<Longrightarrow> events w' = events w \<Longrightarrow> next_fn w' = next_fn w \<Longrightarrow> unregistered r w'"
  by (simp add: unregistered_def)

lemma unregistered_do_step: "unregistered r w \<Longrightarrow> unregistered r (do_step s w)"
proof (cases s)
  case (Subscribe prov chain_id d isActive)
  assume "unregistered r w"
  with Subscribe show ?thesis by (simp add: unregistered_subscribe)
next
  case (Run c)
  assume "unregistered r w"
  with Run show ?thesis by (cases c) (simp_all add: unregistered_off)
next
  case (Block p' n)
  assume "unregistered r w"
  with Block show ?thesis by (simp add: unregistered_same_events)
next
  case Fire
  assume "unregistered r w"
  with Fire show ?thesis by (simp add: unregistered_same_events)
next
  case (Settle i x)
  assume "unregistered r w"
  with Settle show ?thesis by (simp add: unregistered_same_events)
qed

lemma unregistered_run: "unregistered r w \<Longrightarrow> unregistered r (run ss w)"
  by (induction ss arbitrary: w) (simp_all add: unregistered_do_step)

lemma owned_off_unregistered:
  assumes o: "owned t p l w"
  shows "unregistered (fn_id l) (provider_off p t l w)"
proof (rule unregisteredI)
  show "fn_id l < next_fn (provider_off p t l w)"
    using owned_lt [OF o] by (simp add: provider_off_def)
next
  fix q e
  assume e: "e \<in> set (events (provider_off p t l w) q)"
  have here: "\<forall>e \<in> set (events w p). fn_id (snd e) = fn_id l \<longrightarrow> e = (t, l)"
    using owned_only [OF o] by blast
  show "fn_id (snd e) \<noteq> fn_id l"
  proof (cases "q = p")
    case True
    with e have "e \<in> set (remove_first t (fn_id l) (events w p))"
      by (simp add: provider_off_def)
    then show ?thesis by (rule remove_first_none_left [OF here owned_once [OF o]])
  next
    case False
    with e have "e \<in> set (events w q)" by (simp add: provider_off_def)
    with False owned_only [OF o] show ?thesis by blast
  qed
qed

lemma owned_off_events:
  assumes o: "owned t p l w"
  shows "events (provider_off p t l w) = (events w)(p := remove1 (t, l) (events w p))"
proof -
  have "\<forall>e \<in> set (events w p). fn_id (snd e) = fn_id l \<longrightarrow> e = (t, l)"
    using owned_only [OF o] by blast
  then show ?thesis by (simp add: provider_off_def remove_first_is_remove1)
qed

lemma unregistered_emit_block:
  assumes u: "unregistered r w"
  shows "scheduled_for r (emit_block q n w) = scheduled_for r w"
proof -
  have "fn_id l \<noteq> r" if "l \<in> set (block_listeners q w)" for l
  proof -
    from that obtain e where "e \<in> set (events w q)" and "l = snd e"
      by (auto simp add: block_listeners_def)
    then show ?thesis using unregistered_none [OF u] by simp
  qed
  then have "filter (\<lambda>t. fn_id (fst t) = r) (map (\<lambda>l. (l, n)) (block_listeners q w)) = []"
    by (simp add: filter_empty_conv)
  then show ?thesis by (simp add: scheduled_for_def emit_block_def)
qed

lemma allocated_fresh:
  "allocated w \<Longrightarrow> e \<in> set (events w q) \<Longrightarrow> fn_id (snd e) \<noteq> next_fn w"
  unfolding allocated_def by fastforce

lemma on_fresh_owned:
  assumes a: "allocated w" and l: "fn_id l = next_fn w" and nf: "next_fn w < next_fn w'"
    and ev: "events w' = (events w)(p := events w p @ [(t, l)])"
  shows "owned t p l w'"
proof (rule ownedI)
  show "fn_id l < next_fn w'" using l nf by simp
next
  fix q e
  assume e: "e \<in> set (events w' q)" and f: "fn_id (snd e) = fn_id l"
  have "e \<notin> set (events w q)" using allocated_fresh [OF a] f l by metis
  with e ev show "q = p \<and> e = (t, l)"
    by (cases "q = p") auto
next
  have "(t, l) \<notin> set (events w p)" using allocated_fresh [OF a, of "(t, l)" p] l by auto
  then have "count_list (events w p) (t, l) = 0" by (simp add: count_list_0_iff)
  with ev show "count_list (events w' p) (t, l) \<le> 1" by simp
qed

lemma subscribe_owned:
  assumes "allocated w"
  shows "owned ''block'' p (Update (next_fn w) d c)
           (snd (subscribeToNewBlock (Some p) (Some c) d True w))"
  by (rule on_fresh_owned [OF assms]) (simp_all add: subscribeToNewBlock_active)

subsection \<open>A registration stays until \<open>off\<close> is called for it\<close>

lemma count_remove_first_other:
  "fn_id (snd x) \<noteq> r \<Longrightarrow> count_list (remove_first t r es) x = count_list es x"
  by (induction es) auto

lemma once_subscribe:
  assumes lt: "fn_id l < next_fn w" and one: "count_list (events w p) (t, l) = 1"
  shows "fn_id l < next_fn (snd (subscribeToNewBlock prov chain_id d isActive w)) \<and>
         count_list (events (snd (subscribeToNewBlock prov chain_id d isActive w)) p) (t, l) = 1"
proof (cases "prov \<noteq> None \<and> chain_id \<noteq> None \<and> isActive")
  case True
  then obtain p' c where pc: "prov = Some p'" "chain_id = Some c" "isActive = True" by auto
  have "Update (next_fn w) d c \<noteq> l" using lt by auto
  then have neq: "(''block'', Update (next_fn w) d c) \<noteq> (t, l)" by simp
  have "count_list (events (snd (subscribeToNewBlock (Some p') (Some c) d True w)) p) (t, l) =
        count_list (events w p) (t, l)"
    using count_list_snoc_other [OF neq]
    by (cases "p = p'") (simp_all add: subscribeToNewBlock_active)
  with pc lt one show ?thesis by (simp add: subscribeToNewBlock_active)
next
  case False
  then have "subscribeToNewBlock prov chain_id d isActive w = (Noop, w)"
    by (rule subscribeToNewBlock_inactive)
  with lt one show ?thesis by simp
qed

lemma once_off:
  assumes one: "count_list (events w p) (t, l) = 1" and other: "fn_id l' \<noteq> fn_id l"
  shows "count_list (events (provider_off p' t' l' w) p) (t, l) = 1"
proof -
  have "fn_id (snd (t, l)) \<noteq> fn_id l'" using other by simp
  then have "count_list (remove_first t' (fn_id l') (events w p)) (t, l) =
             count_list (events w p) (t, l)"
    by (rule count_remove_first_other)
  with one show ?thesis by (cases "p = p'") (simp_all add: provider_off_def)
qed

lemma once_do_step:
  assumes lt: "fn_id l < next_fn w" and one: "count_list (events w p) (t, l) = 1"
    and f: "foreign_step (fn_id l) s"
  shows "fn_id l < next_fn (do_step s w) \<and> count_list (events (do_step s w) p) (t, l) = 1"
proof (cases s)
  case (Subscribe prov chain_id d isActive)
  with once_subscribe [OF lt one] show ?thesis by simp
next
  case (Run c)
  show ?thesis
  proof (cases c)
    case (Off_block p' l')
    with f Run have "fn_id l' \<noteq> fn_id l" by simp
    from once_off [OF one this] lt Run Off_block show ?thesis
      by (simp add: provider_off_def)
  next
    case Noop
    with lt one Run show ?thesis by simp
  qed
next
  case (Block p' n)
  with lt one show ?thesis by simp
next
  case Fire
  with lt one show ?thesis by simp
next
  case (Settle i r)
  with lt one show ?thesis by simp
qed

lemma once_run:
  "fn_id l < next_fn w \<Longrightarrow> count_list (events w p) (t, l) = 1 \<Longrightarrow>
   \<forall>s \<in> set ss. foreign_step (fn_id l) s \<Longrightarrow>
   count_list (events (run ss w) p) (t, l) = 1"
proof (induction ss arbitrary: w)
  case Nil
  then show ?case by simp
next
  case (Cons s ss)
  from Cons.prems have f: "foreign_step (fn_id l) s" and fs: "\<forall>s \<in> set ss. foreign_step (fn_id l) s"
    by simp_all
  from once_do_step [OF Cons.prems(1,2) f] Cons.IH [of "do_step s w"] fs
  show ?case by simp
qed

subsection \<open>What an unregistered closure can still dispatch\<close>

lemma filter_without_nth:
  "i < length xs \<Longrightarrow>
   length (filter P (take i xs @ drop (Suc i) xs)) + (if P (xs ! i) then 1 else 0) =
   length (filter P xs)"
proof -
  assume "i < length xs"
  then have "xs = take i xs @ xs ! i # drop (Suc i) xs" by (rule id_take_nth_drop)
  then have "length (filter P xs) = length (filter P (take i xs @ xs ! i # drop (Suc i) xs))"
    by simp
  then show ?thesis by simp
qed

lemma provider_off_fields [simp]:
  "next_fn (provider_off p t l w) = next_fn w"
  "pending (provider_off p t l w) = pending w"
  "timers (provider_off p t l w) = timers w"
  "dispatched (provider_off p t l w) = dispatched w"
  by (simp_all add: provider_off_def)

lemma owed_subscribe:
  assumes u: "unregistered r w"
  shows "calls_by r (snd (subscribeToNewBlock prov chain_id d isActive w)) = calls_by r w \<and>
         owed r (snd (subscribeToNewBlock prov chain_id d isActive w)) = owed r w"
proof (cases "prov \<noteq> None \<and> chain_id \<noteq> None \<and> isActive")
  case True
  then obtain p' c where pc: "prov = Some p'" "chain_id = Some c" "isActive = True" by auto
  have "next_fn w \<noteq> r" using unregistered_lt [OF u] by simp
  with pc show ?thesis
    by (simp add: subscribeToNewBlock_active calls_by_def owed_def scheduled_for_def pending_for_def)
next
  case False
  then have "subscribeToNewBlock prov chain_id d isActive w = (Noop, w)"
    by (rule subscribeToNewBlock_inactive)
  then show ?thesis by simp
qed

lemma owed_fire:
  "length (calls_by r (fire w)) + owed r (fire w) = length (calls_by r w) + owed r w"
  by (cases "timers w")
     (simp_all add: fire_def call_update_def calls_by_def owed_def scheduled_for_def pending_for_def)

lemma owed_settle:
  "length (calls_by r (settle i x w)) + owed r (settle i x w) \<le> length (calls_by r w) + owed r w"
proof (cases "i < length (pending w)")
  case True
  note rem = filter_without_nth [OF True, of "\<lambda>x. fn_id (snd x) = r"]
  show ?thesis
  proof (cases x)
    case (Inl e)
    with True rem show ?thesis
      by (simp add: settle_def Let_def calls_by_def owed_def scheduled_for_def pending_for_def
            split: if_splits)
  next
    case (Inr n)
    with True rem show ?thesis
      by (simp add: settle_def Let_def call_update_def calls_by_def owed_def scheduled_for_def
            pending_for_def split: if_splits)
  qed
next
  case False
  then show ?thesis by (simp add: settle_def)
qed

lemma owed_do_step:
  assumes u: "unregistered r w"
  shows "length (calls_by r (do_step s w)) + owed r (do_step s w) \<le> length (calls_by r w) + owed r w"
proof (cases s)
  case (Subscribe prov chain_id d isActive)
  with owed_subscribe [OF u] show ?thesis by simp
next
  case (Run c)
  then show ?thesis
    by (cases c) (simp_all add: calls_by_def owed_def scheduled_for_def pending_for_def)
next
  case (Block q n)
  with unregistered_emit_block [OF u, of q n] show ?thesis
    by (simp add: calls_by_def owed_def pending_for_def)
next
  case Fire
  with owed_fire [of r w] show ?thesis by simp
next
  case (Settle i x)
  with owed_settle [of r i x w] show ?thesis by simp
qed

lemma owed_run:
  "unregistered r w \<Longrightarrow>
   length (calls_by r (run ss w)) + owed r (run ss w) \<le> length (calls_by r w) + owed r w"
proof (induction ss arbitrary: w)
  case Nil
  then show ?case by simp
next
  case (Cons s ss)
  have "unregistered r (do_step s w)" using Cons.prems by (rule unregistered_do_step)
  then have "length (calls_by r (run ss (do_step s w))) + owed r (run ss (do_step s w))
               \<le> length (calls_by r (do_step s w)) + owed r (do_step s w)"
    by (rule Cons.IH)
  also have "\<dots> \<le> length (calls_by r w) + owed r w"
    using Cons.prems by (rule owed_do_step)
  finally show ?case by simp
qed

text \<open>
  Claim C2, as the code has it. For an active subscription, made in a world where every
  registered closure was allocated before, the call registers the closure \<open>update\<close> at
  the end of the provider's listeners and returns the function that calls
  \<open>provider.off('block', update)\<close>. Called at once, that function restores the listener
  lists to what they were before the subscription. After any steps \<open>ss\<close> (other
  subscriptions, other cleanups, block events, scheduled calls running, promises
  settling), of which none calls \<open>off\<close> for this closure, the closure is still registered
  exactly once; and after any steps at all the function removes the one entry
  \<open>('block', update)\<close> from the provider's list and leaves the others. From then on,
  whatever steps \<open>ss'\<close> follow, the closure is registered nowhere and a block event of
  any provider schedules no call of it. The dispatches it makes after the cleanup are at
  most the calls of it that were scheduled before the cleanup and its own initial
  request if that was still pending.
\<close>

theorem cleanup_removes_registered_handler:
  assumes "allocated w"
  shows "let upd = Update (next_fn w) d c;
             cl = fst (subscribeToNewBlock (Some p) (Some c) d True w);
             w1 = snd (subscribeToNewBlock (Some p) (Some c) d True w);
             w2 = run ss w1;
             w3 = run_cleanup cl w2;
             w4 = run ss' w3
         in cl = Off_block p upd \<and>
            events w1 = (events w)(p := events w p @ [(''block'', upd)]) \<and>
            events (run_cleanup cl w1) = events w \<and>
            ((\<forall>s \<in> set ss. foreign_step (next_fn w) s) \<longrightarrow>
               count_list (events w2 p) (''block'', upd) = 1) \<and>
            events w3 = (events w2)(p := remove1 (''block'', upd) (events w2 p)) \<and>
            (''block'', upd) \<notin> set (events w3 p) \<and>
            unregistered (next_fn w) w4 \<and>
            scheduled_for (next_fn w) (emit_block q n w4) = scheduled_for (next_fn w) w4 \<and>
            length (calls_by (next_fn w) w4) + owed (next_fn w) w4 \<le>
              length (calls_by (next_fn w) w3) + owed (next_fn w) w3"
proof -
  let ?upd = "Update (next_fn w) d c"
  let ?w1 = "snd (subscribeToNewBlock (Some p) (Some c) d True w)"
  let ?w3 = "run_cleanup (Off_block p ?upd) (run ss ?w1)"
  have cl: "fst (subscribeToNewBlock (Some p) (Some c) d True w) = Off_block p ?upd"
    by (simp add: subscribeToNewBlock_active)
  have ev: "events ?w1 = (events w)(p := events w p @ [(''block'', ?upd)])"
    by (simp add: subscribeToNewBlock_active)
  have fresh: "\<forall>e \<in> set (events w p). fn_id (snd e) \<noteq> fn_id ?upd"
    using allocated_fresh [OF assms] by simp
  have restore: "events (run_cleanup (Off_block p ?upd) ?w1) = events w"
    using remove_first_append_fresh [OF fresh, of "''block''"]
    by (simp add: subscribeToNewBlock_active provider_off_def)
  have "(''block'', ?upd) \<notin> set (events w p)"
    using allocated_fresh [OF assms, of "(''block'', ?upd)" p] by auto
  then have "count_list (events w p) (''block'', ?upd) = 0"
    by (simp add: count_list_0_iff)
  then have one: "count_list (events ?w1 p) (''block'', ?upd) = 1"
    by (simp add: ev)
  have lt: "fn_id ?upd < next_fn ?w1"
    by (simp add: subscribeToNewBlock_active)
  have still: "count_list (events (run ss ?w1) p) (''block'', ?upd) = 1"
    if "\<forall>s \<in> set ss. foreign_step (next_fn w) s"
    using once_run [OF lt one] that by simp
  have o: "owned ''block'' p ?upd (run ss ?w1)"
    using assms by (intro owned_run subscribe_owned)
  have u3: "unregistered (next_fn w) ?w3"
    using owned_off_unregistered [OF o] by simp
  have gone: "(''block'', ?upd) \<notin> set (events ?w3 p)"
    using unregistered_none [OF u3, of "(''block'', ?upd)" p] by auto
  have u: "unregistered (next_fn w) (run ss' ?w3)"
    using u3 by (rule unregistered_run)
  show ?thesis
    unfolding Let_def cl
    using ev restore still owned_off_events [OF o] gone u unregistered_emit_block [OF u]
      owed_run [OF u3, of ss']
    by simp
qed

theorem cleanup_removes_registered_handler_witness:
  "allocated init_world \<and>
   foreign_step (next_fn init_world) (Block 3 99) \<and>
   foreign_step (next_fn init_world) (Subscribe (Some 3) (Some 1) 8 True) \<and>
   fst (subscribeToNewBlock (Some 3) (Some 1) 7 True init_world) =
     Off_block 3 (Update (next_fn init_world) 7 1) \<and>
   events (run_cleanup (fst (subscribeToNewBlock (Some 3) (Some 1) 7 True init_world))
             (snd (subscribeToNewBlock (Some 3) (Some 1) 7 True init_world))) = events init_world \<and>
   count_list
     (events (run [Block 3 99, Subscribe (Some 3) (Some 1) 8 True]
                (snd (subscribeToNewBlock (Some 3) (Some 1) 7 True init_world))) 3)
     (''block'', Update (next_fn init_world) 7 1) = 1 \<and>
   unregistered (next_fn init_world)
     (run [Fire, Block 3 100, Fire]
        (run_cleanup (fst (subscribeToNewBlock (Some 3) (Some 1) 7 True init_world))
           (run [Block 3 99, Subscribe (Some 3) (Some 1) 8 True]
              (snd (subscribeToNewBlock (Some 3) (Some 1) 7 True init_world))))) \<and>
   length (calls_by (next_fn init_world)
     (run [Fire, Block 3 100, Fire]
        (run_cleanup (fst (subscribeToNewBlock (Some 3) (Some 1) 7 True init_world))
           (run [Block 3 99, Subscribe (Some 3) (Some 1) 8 True]
              (snd (subscribeToNewBlock (Some 3) (Some 1) 7 True init_world)))))) +
   owed (next_fn init_world)
     (run [Fire, Block 3 100, Fire]
        (run_cleanup (fst (subscribeToNewBlock (Some 3) (Some 1) 7 True init_world))
           (run [Block 3 99, Subscribe (Some 3) (Some 1) 8 True]
              (snd (subscribeToNewBlock (Some 3) (Some 1) 7 True init_world))))) \<le>
   length (calls_by (next_fn init_world)
        (run_cleanup (fst (subscribeToNewBlock (Some 3) (Some 1) 7 True init_world))
           (run [Block 3 99, Subscribe (Some 3) (Some 1) 8 True]
              (snd (subscribeToNewBlock (Some 3) (Some 1) 7 True init_world))))) +
   owed (next_fn init_world)
        (run_cleanup (fst (subscribeToNewBlock (Some 3) (Some 1) 7 True init_world))
           (run [Block 3 99, Subscribe (Some 3) (Some 1) 8 True]
              (snd (subscribeToNewBlock (Some 3) (Some 1) 7 True init_world))))"
proof -
  have a: "allocated init_world"
    by (simp add: allocated_def init_world_def)
  have f: "\<forall>s \<in> set [Block 3 99, Subscribe (Some 3) (Some 1) 8 True].
             foreign_step (next_fn init_world) s"
    by simp
  have g: "foreign_step (next_fn init_world) (Block 3 99)"
    "foreign_step (next_fn init_world) (Subscribe (Some 3) (Some 1) 8 True)"
    by simp_all
  show ?thesis
    using a f g cleanup_removes_registered_handler [OF a, where p = 3 and c = 1 and d = 7
        and ss = "[Block 3 99, Subscribe (Some 3) (Some 1) 8 True]"
        and ss' = "[Fire, Block 3 100, Fire]" and q = 3 and n = 101]
    unfolding Let_def by blast
qed

text \<open>
  A block event emitted before the cleanup can still make the subscription dispatch
  after it: provider 3 emits block 100, which schedules the listener call; the returned
  function is called and removes the listener; nothing has been dispatched so far; then
  the scheduled call runs and dispatches block 100.
\<close>

theorem dispatch_after_cleanup:
  "fst (subscribeToNewBlock (Some 3) (Some 1) 7 True init_world) = Off_block 3 (Update 0 7 1) \<and>
   events (run [Subscribe (Some 3) (Some 1) 7 True, Block 3 100,
                Run (Off_block 3 (Update 0 7 1))] init_world) 3 = [] \<and>
   dispatched (run [Subscribe (Some 3) (Some 1) 7 True, Block 3 100,
                    Run (Off_block 3 (Update 0 7 1))] init_world) = [] \<and>
   dispatched (run [Subscribe (Some 3) (Some 1) 7 True, Block 3 100,
                    Run (Off_block 3 (Update 0 7 1)), Fire] init_world) =
     [\<lparr>by_fn = 0, target = 7, action = \<lparr>chainId = 1, blockNumber = 100\<rparr>\<rparr>]"
  by (simp add: init_world_def subscribeToNewBlock_def provider_on_def provider_off_def
        getBlockNumber_then_def emit_block_def block_listeners_def fire_def call_update_def
        Let_def)

subsection \<open>Every reachable world is allocated\<close>

lemma allocatedI:
  "(\<And>q e. e \<in> set (events w q) \<Longrightarrow> fn_id (snd e) < next_fn w) \<Longrightarrow> allocated w"
  unfolding allocated_def by fast

lemma allocated_lt: "allocated w \<Longrightarrow> e \<in> set (events w q) \<Longrightarrow> fn_id (snd e) < next_fn w"
  unfolding allocated_def by fast

lemma allocated_init_world: "allocated init_world"
  by (simp add: allocated_def init_world_def)

lemma allocated_do_step:
  assumes a: "allocated w"
  shows "allocated (do_step s w)"
proof (cases s)
  case (Subscribe prov chain_id d isActive)
  show ?thesis
  proof (cases "prov \<noteq> None \<and> chain_id \<noteq> None \<and> isActive")
    case True
    then obtain p c where pc: "prov = Some p" "chain_id = Some c" "isActive = True" by auto
    let ?w' = "snd (subscribeToNewBlock (Some p) (Some c) d True w)"
    have "allocated ?w'"
    proof (rule allocatedI)
      fix q e
      assume "e \<in> set (events ?w' q)"
      then have "e \<in> set (events w q) \<or> fn_id (snd e) = next_fn w"
        by (cases "q = p") (auto simp add: subscribeToNewBlock_active)
      then have "fn_id (snd e) < Suc (next_fn w)"
        using allocated_lt [OF a, of e q] by auto
      then show "fn_id (snd e) < next_fn ?w'" by (simp add: subscribeToNewBlock_active)
    qed
    with pc Subscribe show ?thesis by simp
  next
    case False
    then have "subscribeToNewBlock prov chain_id d isActive w = (Noop, w)"
      by (rule subscribeToNewBlock_inactive)
    with a Subscribe show ?thesis by simp
  qed
next
  case (Run c)
  show ?thesis
  proof (cases c)
    case (Off_block p l)
    have "allocated (provider_off p ''block'' l w)"
    proof (rule allocatedI)
      fix q e
      assume e: "e \<in> set (events (provider_off p ''block'' l w) q)"
      have "e \<in> set (events w q)"
      proof (cases "q = p")
        case True
        with e have "e \<in> set (remove_first ''block'' (fn_id l) (events w p))"
          by (simp add: provider_off_def)
        with True show ?thesis using set_remove_first by fast
      next
        case False
        with e show ?thesis by (simp add: provider_off_def)
      qed
      then show "fn_id (snd e) < next_fn (provider_off p ''block'' l w)"
        using allocated_lt [OF a] by (simp add: provider_off_def)
    qed
    with Run Off_block show ?thesis by simp
  next
    case Noop
    with a Run show ?thesis by simp
  qed
next
  case (Block p n)
  with a show ?thesis by (simp add: allocated_def)
next
  case Fire
  with a show ?thesis by (simp add: allocated_def)
next
  case (Settle i r)
  with a show ?thesis by (simp add: allocated_def)
qed

lemma allocated_run: "allocated w \<Longrightarrow> allocated (run ss w)"
  by (induction ss arbitrary: w) (simp_all add: allocated_do_step)

subsection \<open>The initial fetch of the block number\<close>

lemma settle_pending_entry:
  assumes "i < length (pending v)" and "pending v ! i = (p, l)"
  shows "dispatched (settle i (Inr n) v) =
           dispatched v @ [\<lparr>by_fn = fn_id l, target = dispatch_fn l,
                            action = \<lparr>chainId = captured l, blockNumber = n\<rparr>\<rparr>]"
    and "dispatched (settle i (Inl e) v) = dispatched v"
    and "console_error (settle i (Inl e) v) = console_error v @ [e]"
    and "console_error (settle i (Inr n) v) = console_error v"
    and "pending (settle i r v) = take i (pending v) @ drop (Suc i) (pending v)"
  using assms by (simp_all add: settle_def call_update_def Let_def split: sum.splits)

text \<open>
  Claim C10, as the code has it. An activating call of \<open>subscribeToNewBlock\<close> issues one
  \<open>getBlockNumber\<close> request, whose promise is pending when the call returns, and
  dispatches nothing itself. Whenever that promise settles, in whatever world \<open>v\<close> it is
  then pending: fulfilled with \<open>n\<close>, the same closure \<open>update\<close> makes one call of
  \<open>dispatch\<close> with the captured chain id and \<open>n\<close>, and nothing is logged; rejected with
  \<open>e\<close>, the error is logged with \<open>console.error\<close>, nothing is dispatched and the
  listener lists are untouched, so the \<open>block\<close> listener remains registered. Either way
  the promise is no longer pending.
\<close>

theorem initial_fetch_dispatches_when_settled:
  "let upd = Update (next_fn w) d c;
       w1 = snd (subscribeToNewBlock (Some p) (Some c) d True w)
   in pending w1 = pending w @ [(p, upd)] \<and>
      dispatched w1 = dispatched w \<and>
      (i < length (pending v) \<and> pending v ! i = (p, upd) \<longrightarrow>
         dispatched (settle i (Inr n) v) =
           dispatched v @ [\<lparr>by_fn = next_fn w, target = d,
                            action = \<lparr>chainId = c, blockNumber = n\<rparr>\<rparr>] \<and>
         console_error (settle i (Inr n) v) = console_error v \<and>
         dispatched (settle i (Inl e) v) = dispatched v \<and>
         console_error (settle i (Inl e) v) = console_error v @ [e] \<and>
         events (settle i (Inl e) v) = events v \<and>
         pending (settle i r v) = take i (pending v) @ drop (Suc i) (pending v))"
  using settle_pending_entry [of i v p "Update (next_fn w) d c"]
  by (simp add: subscribeToNewBlock_active Let_def)

theorem initial_fetch_dispatches_when_settled_witness:
  "pending (snd (subscribeToNewBlock (Some 3) (Some 1) 7 True init_world)) =
     [(3, Update 0 7 1)] \<and>
   dispatched (snd (subscribeToNewBlock (Some 3) (Some 1) 7 True init_world)) = [] \<and>
   dispatched (settle 0 (Inr 99) (snd (subscribeToNewBlock (Some 3) (Some 1) 7 True init_world))) =
     [\<lparr>by_fn = 0, target = 7, action = \<lparr>chainId = 1, blockNumber = 99\<rparr>\<rparr>] \<and>
   dispatched (settle 0 (Inl (Error ''timeout''))
      (snd (subscribeToNewBlock (Some 3) (Some 1) 7 True init_world))) = [] \<and>
   console_error (settle 0 (Inl (Error ''timeout''))
      (snd (subscribeToNewBlock (Some 3) (Some 1) 7 True init_world))) = [Error ''timeout''] \<and>
   events (settle 0 (Inl (Error ''timeout''))
      (snd (subscribeToNewBlock (Some 3) (Some 1) 7 True init_world))) 3 = [(''block'', Update 0 7 1)]"
  using initial_fetch_dispatches_when_settled [where w = init_world and p = 3 and c = 1 and d = 7
      and v = "snd (subscribeToNewBlock (Some 3) (Some 1) 7 True init_world)" and i = 0
      and n = 99 and e = "Error ''timeout''"]
  by (simp add: Let_def init_world_def subscribeToNewBlock_active)

text \<open>
  The dispatch of the fetched block number is not immediate, and it need not come before
  the dispatch of a block event: when the call returns nothing has been dispatched, and
  if provider 3 emits block 100 and the scheduled listener call runs before the request
  is answered with 99, the dispatch for block 100 comes first.
\<close>

theorem initial_dispatch_not_immediate:
  "dispatched (snd (subscribeToNewBlock (Some 3) (Some 1) 7 True init_world)) = [] \<and>
   map action (dispatched (run [Subscribe (Some 3) (Some 1) 7 True, Block 3 100, Fire, Settle 0 (Inr 99)]
                              init_world)) =
     [\<lparr>chainId = 1, blockNumber = 100\<rparr>, \<lparr>chainId = 1, blockNumber = 99\<rparr>]"
  by (simp add: init_world_def subscribeToNewBlock_def provider_on_def getBlockNumber_then_def
        emit_block_def block_listeners_def fire_def call_update_def settle_def Let_def)

section \<open>Properties of the connector\<close>

lemma init_defined: "provider s = Some web3 \<Longrightarrow> init env s = (Inr (), s)"
  by (simp add: init_def)

lemma init_cases:
  "provider s = None \<Longrightarrow> construct env = Some e \<Longrightarrow> init env s = (Inl e, s)"
  "provider s = None \<Longrightarrow> construct env = None \<Longrightarrow>
     snd (init env s) =
       s\<lparr>provider := Some (Web3Provider (Suc (next_obj s)) (next_obj s)),
         next_obj := next_obj s + 2,
         calls := calls s @ [New_WalletConnectProvider (next_obj s),
                             New_Web3Provider (Suc (next_obj s)) (next_obj s),
                             Enable (next_obj s)]\<rparr>"
  "provider s = None \<Longrightarrow> construct env = None \<Longrightarrow>
     fst (init env s) = (case enable env of Inl e \<Rightarrow> Inl e | Inr _ \<Rightarrow> Inr ())"
  by (simp_all add: init_def Let_def split: sum.splits)

lemma init_ok_provider: "fst (init env s) = Inr () \<Longrightarrow> \<exists>web3. provider (snd (init env s)) = Some web3"
  by (cases "provider s"; cases "construct env") (simp_all add: init_def Let_def split: sum.splits)

lemma init_update [simp]: "update (snd (init env s)) = update s"
  by (cases "provider s"; cases "construct env") (simp_all add: init_def Let_def split: sum.splits)

lemma init_console [simp]: "console (snd (init env s)) = console s"
  by (cases "provider s"; cases "construct env") (simp_all add: init_def Let_def split: sum.splits)

lemma send_defined:
  "provider s = Some web3 \<Longrightarrow>
   send m r s = (r, s\<lparr>calls := calls s @ [Send (self web3) m]\<rparr>)"
  by (simp add: send_def)

text \<open>The four outcomes of the try block.\<close>

lemma try_block_init_fails:
  "fst (init env s) = Inl e \<Longrightarrow> try_block env s = (Inl e, snd (init env s))"
  by (cases "init env s") (simp add: try_block_def)

lemma try_block_chainId_fails:
  assumes "fst (init env s) = Inr ()" and "eth_chainId env = Inl e"
  shows "try_block env s = (Inl e, snd (send ''eth_chainId'' (eth_chainId env) (snd (init env s))))"
proof -
  obtain s1 where i: "init env s = (Inr (), s1)" using assms(1) by (cases "init env s") simp
  then obtain web3 where "provider s1 = Some web3" using init_ok_provider [of env s] by auto
  with i assms(2) show ?thesis by (simp add: try_block_def send_defined)
qed

lemma try_block_accounts_fails:
  assumes "fst (init env s) = Inr ()" and "eth_chainId env = Inr chain" and "eth_accounts env = Inl e"
  shows "try_block env s =
           (Inl e, snd (send ''eth_accounts'' (eth_accounts env)
                     (snd (send ''eth_chainId'' (eth_chainId env) (snd (init env s))))))"
proof -
  obtain s1 where i: "init env s = (Inr (), s1)" using assms(1) by (cases "init env s") simp
  then obtain web3 where "provider s1 = Some web3" using init_ok_provider [of env s] by auto
  with i assms(2,3) show ?thesis by (simp add: try_block_def send_defined)
qed

lemma try_block_succeeds:
  assumes "fst (init env s) = Inr ()" and "eth_chainId env = Inr chain" and "eth_accounts env = Inr accs"
  shows "try_block env s =
           (Inr (), emit (ConnectorUpdateData (parseInt (approximates env) chain) accs)
                      (snd (send ''eth_accounts'' (eth_accounts env)
                        (snd (send ''eth_chainId'' (eth_chainId env) (snd (init env s)))))))"
proof -
  obtain s1 where i: "init env s = (Inr (), s1)" using assms(1) by (cases "init env s") simp
  then obtain web3 where "provider s1 = Some web3" using init_ok_provider [of env s] by auto
  with i assms(2,3) show ?thesis by (simp add: try_block_def send_defined)
qed

lemma send_fields [simp]:
  "update (snd (send m r s)) = update s"
  "console (snd (send m r s)) = console s"
  "provider (snd (send m r s)) = provider s"
  "next_obj (snd (send m r s)) = next_obj s"
  by (simp_all add: send_def split: option.splits)

lemma emit_fields [simp]:
  "update (emit d s) = update s @ [d]"
  "console (emit d s) = console s"
  "provider (emit d s) = provider s"
  "next_obj (emit d s) = next_obj s"
  "calls (emit d s) = calls s"
  by (simp_all add: emit_def)

lemma try_block_outcomes:
  "(\<exists>e. fst (init env s) = Inl e) \<or>
   (fst (init env s) = Inr () \<and> (\<exists>e. eth_chainId env = Inl e)) \<or>
   (fst (init env s) = Inr () \<and> (\<exists>chain. eth_chainId env = Inr chain) \<and> (\<exists>e. eth_accounts env = Inl e)) \<or>
   (fst (init env s) = Inr () \<and> (\<exists>chain. eth_chainId env = Inr chain) \<and> (\<exists>accs. eth_accounts env = Inr accs))"
proof (cases "fst (init env s)")
  case (Inl e)
  then show ?thesis by simp
next
  case (Inr u)
  then have "fst (init env s) = Inr ()" by simp
  then show ?thesis
    by (cases "eth_chainId env"; cases "eth_accounts env") simp_all
qed

subsection \<open>Values of parseInt\<close>

lemmas parseInt_eval =
  parseInt_def js_def is_white_def digit_val_def radix_digit_def mathInt_def to_double_def
  bitlen.simps Let_def

lemma parseInt_examples:
  "parseInt b (js ''0x1'') = Finite Plus 1 \<and> parseInt b (js ''  -42px'') = Finite Minus 42 \<and>
   parseInt b (js ''0X1f'') = Finite Plus 31 \<and> parseInt b (js ''x'') = NaN \<and>
   parseInt b (js ''0x'') = NaN \<and> parseInt b (js ''137'') = Finite Plus 137 \<and>
   parseInt b ([8195, 65279] @ js ''+7'') = Finite Plus 7"
  by (simp add: parseInt_eval)

text \<open>
  The result is a double: \<open>-0\<close> keeps its sign, an integer above \<open>2^53\<close> is rounded to
  the nearest double (ties to even), and \<open>2^1024\<close> is infinity. On a decimal number of
  more than 20 significant digits the two kinds of engine can differ.
\<close>

lemma parseInt_doubles:
  "parseInt b (js ''-0'') = Finite Minus 0 \<and>
   parseInt b (js ''9007199254740993'') = Finite Plus 9007199254740992 \<and>
   parseInt b (js ''9007199254740995'') = Finite Plus 9007199254740996 \<and>
   parseInt b (js ''0x20000000000003'') = Finite Plus 9007199254740996 \<and>
   parseInt False (js ''13836751593690046136770'') = Finite Plus 13836751593690047184896 \<and>
   parseInt True (js ''13836751593690046136770'') = Finite Plus 13836751593690045087744"
  by (simp add: parseInt_eval)

lemma to_double_overflow: "to_double (2 ^ 1024) = None"
  by (simp add: to_double_def bitlen.simps Let_def)

text \<open>
  Claim C7. \<open>activate\<close>: when \<open>init\<close> and the requests \<open>eth_chainId\<close> and
  \<open>eth_accounts\<close> all succeed, the call returns normally, nothing is logged, and exactly
  one update event is emitted, carrying the number that the engine's \<open>parseInt\<close> returns
  for the chain id string, and the accounts. When any of the three fails, the call throws an Error with the message
  \<open>Could not activate connector\<close> and emits no update event.
\<close>

theorem activate_emits_or_throws:
  "(fst (init env s) = Inr () \<and> eth_chainId env = Inr chain \<and> eth_accounts env = Inr accs \<longrightarrow>
      fst (activate env s) = Inr () \<and>
      update (snd (activate env s)) = update s @ [ConnectorUpdateData (parseInt (approximates env) chain) accs] \<and>
      console (snd (activate env s)) = console s) \<and>
   (\<not> (fst (init env s) = Inr () \<and> (\<exists>x. eth_chainId env = Inr x) \<and> (\<exists>y. eth_accounts env = Inr y)) \<longrightarrow>
      fst (activate env s) = Inl (Error ''Could not activate connector'') \<and>
      update (snd (activate env s)) = update s)"
proof -
  consider (a) e where "fst (init env s) = Inl e"
    | (b) e where "fst (init env s) = Inr ()" "eth_chainId env = Inl e"
    | (c) x e where "fst (init env s) = Inr ()" "eth_chainId env = Inr x" "eth_accounts env = Inl e"
    | (d) x y where "fst (init env s) = Inr ()" "eth_chainId env = Inr x" "eth_accounts env = Inr y"
    using try_block_outcomes [of env s] by blast
  then show ?thesis
  proof cases
    case a
    then show ?thesis by (simp add: activate_def try_block_init_fails)
  next
    case b
    then show ?thesis by (simp add: activate_def try_block_chainId_fails)
  next
    case c
    then show ?thesis by (simp add: activate_def try_block_accounts_fails)
  next
    case d
    then show ?thesis by (simp add: activate_def try_block_succeeds)
  qed
qed

theorem activate_emits_or_throws_witness:
  "fst (init answers_ok new_connector) = Inr () \<and>
   fst (activate answers_ok new_connector) = Inr () \<and>
   update (snd (activate answers_ok new_connector)) =
     [ConnectorUpdateData (Finite Plus 137) [js ''0xabc'']] \<and>
   fst (activate answers_big new_connector) = Inr () \<and>
   update (snd (activate answers_big new_connector)) =
     [ConnectorUpdateData (Finite Plus 9007199254740992) [js ''0xabc'']] \<and>
   fst (activate answers_rejected new_connector) = Inl (Error ''Could not activate connector'') \<and>
   update (snd (activate answers_rejected new_connector)) = []"
proof -
  have i: "fst (init answers_ok new_connector) = Inr ()"
    "fst (init answers_big new_connector) = Inr ()"
    by (simp_all add: init_def answers_ok_def answers_big_def new_connector_def Let_def)
  have p: "parseInt False (js ''0x89'') = Finite Plus 137"
    "parseInt False (js ''9007199254740993'') = Finite Plus 9007199254740992"
    by (simp_all add: parseInt_eval)
  have r: "\<not> (fst (init answers_rejected new_connector) = Inr () \<and>
              (\<exists>x. eth_chainId answers_rejected = Inr x) \<and>
              (\<exists>y. eth_accounts answers_rejected = Inr y))"
    by (simp add: answers_rejected_def)
  have c: "eth_chainId answers_ok = Inr (js ''0x89'')" "eth_accounts answers_ok = Inr [js ''0xabc'']"
    "approximates answers_ok = False"
    "eth_chainId answers_big = Inr (js ''9007199254740993'')"
    "eth_accounts answers_big = Inr [js ''0xabc'']" "approximates answers_big = False"
    "update new_connector = []"
    by (simp_all add: answers_ok_def answers_big_def new_connector_def)
  show ?thesis
    using i p r c
      activate_emits_or_throws [where env = answers_ok and s = new_connector
        and chain = "js ''0x89''" and accs = "[js ''0xabc'']"]
      activate_emits_or_throws [where env = answers_big and s = new_connector
        and chain = "js ''9007199254740993''" and accs = "[js ''0xabc'']"]
      activate_emits_or_throws [where env = answers_rejected and s = new_connector]
    by simp
qed

text \<open>
  Claim C8. \<open>connectEagerly\<close> never throws. When \<open>init\<close> fails, the state is the one
  \<open>init\<close> left, with the error logged at level debug; when \<open>eth_chainId\<close> is rejected,
  the state after \<open>init\<close> and that request; when \<open>eth_accounts\<close> is rejected, the state
  after \<open>init\<close> and both requests; in all three no update event is emitted. Only when
  all three succeed is one update event emitted, carrying the number that the engine's
  \<open>parseInt\<close> returns for the chain id string, and the accounts.
\<close>

theorem connectEagerly_never_throws:
  "fst (connectEagerly env s) = Inr () \<and>
   (fst (init env s) = Inl e \<longrightarrow>
      snd (connectEagerly env s) = (snd (init env s))\<lparr>console := console s @ [(''debug'', e)]\<rparr>) \<and>
   (fst (init env s) = Inr () \<and> eth_chainId env = Inl e \<longrightarrow>
      snd (connectEagerly env s) =
        (snd (send ''eth_chainId'' (eth_chainId env) (snd (init env s))))
          \<lparr>console := console s @ [(''debug'', e)]\<rparr>) \<and>
   (fst (init env s) = Inr () \<and> eth_chainId env = Inr chain \<and> eth_accounts env = Inl e \<longrightarrow>
      snd (connectEagerly env s) =
        (snd (send ''eth_accounts'' (eth_accounts env)
           (snd (send ''eth_chainId'' (eth_chainId env) (snd (init env s))))))
          \<lparr>console := console s @ [(''debug'', e)]\<rparr>) \<and>
   (fst (init env s) = Inr () \<and> eth_chainId env = Inr chain \<and> eth_accounts env = Inr accs \<longrightarrow>
      snd (connectEagerly env s) =
        emit (ConnectorUpdateData (parseInt (approximates env) chain) accs)
          (snd (send ''eth_accounts'' (eth_accounts env)
             (snd (send ''eth_chainId'' (eth_chainId env) (snd (init env s))))))) \<and>
   (update (snd (connectEagerly env s)) =
      (if fst (init env s) = Inr () \<and> (\<exists>x. eth_chainId env = Inr x) \<and> (\<exists>y. eth_accounts env = Inr y)
       then update s @ [ConnectorUpdateData (parseInt (approximates env) (projr (eth_chainId env)))
                            (projr (eth_accounts env))]
       else update s))"
proof -
  consider (a) e where "fst (init env s) = Inl e"
    | (b) e where "fst (init env s) = Inr ()" "eth_chainId env = Inl e"
    | (c) x e where "fst (init env s) = Inr ()" "eth_chainId env = Inr x" "eth_accounts env = Inl e"
    | (d) x y where "fst (init env s) = Inr ()" "eth_chainId env = Inr x" "eth_accounts env = Inr y"
    using try_block_outcomes [of env s] by blast
  then show ?thesis
  proof cases
    case a
    then show ?thesis by (simp add: connectEagerly_def try_block_init_fails)
  next
    case b
    then show ?thesis by (simp add: connectEagerly_def try_block_chainId_fails)
  next
    case c
    then show ?thesis by (simp add: connectEagerly_def try_block_accounts_fails)
  next
    case d
    then show ?thesis by (simp add: connectEagerly_def try_block_succeeds)
  qed
qed

theorem connectEagerly_never_throws_witness:
  "fst (connectEagerly answers_enable_rejected new_connector) = Inr () \<and>
   fst (init answers_enable_rejected new_connector) = Inl (Error ''User closed modal'') \<and>
   update (snd (connectEagerly answers_enable_rejected new_connector)) = [] \<and>
   provider (snd (connectEagerly answers_enable_rejected new_connector)) = Some (Web3Provider 1 0) \<and>
   console (snd (connectEagerly answers_enable_rejected new_connector)) =
     [(''debug'', Error ''User closed modal'')] \<and>
   fst (connectEagerly answers_rejected new_connector) = Inr () \<and>
   update (snd (connectEagerly answers_rejected new_connector)) = [] \<and>
   console (snd (connectEagerly answers_rejected new_connector)) = [(''debug'', Error ''rejected'')] \<and>
   fst (connectEagerly answers_ok new_connector) = Inr () \<and>
   update (snd (connectEagerly answers_ok new_connector)) =
     [ConnectorUpdateData (Finite Plus 137) [js ''0xabc'']] \<and>
   update (snd (connectEagerly answers_big new_connector)) =
     [ConnectorUpdateData (Finite Plus 9007199254740992) [js ''0xabc'']]"
proof -
  have i1: "init answers_enable_rejected new_connector =
      (Inl (Error ''User closed modal''),
       \<lparr>provider = Some (Web3Provider 1 0), update = [], next_obj = 2,
        calls = [New_WalletConnectProvider 0, New_Web3Provider 1 0, Enable 0], console = []\<rparr>)"
    by (simp add: init_def answers_enable_rejected_def new_connector_def Let_def)
  have i2: "fst (init answers_rejected new_connector) = Inr ()"
    by (simp add: init_def answers_rejected_def new_connector_def Let_def)
  have i3: "fst (init answers_ok new_connector) = Inr ()"
    "fst (init answers_big new_connector) = Inr ()"
    by (simp_all add: init_def answers_ok_def answers_big_def new_connector_def Let_def)
  have p: "parseInt False (js ''0x89'') = Finite Plus 137"
    "parseInt False (js ''9007199254740993'') = Finite Plus 9007199254740992"
    by (simp_all add: parseInt_eval)
  have c: "eth_chainId answers_rejected = Inl (Error ''rejected'')"
    "eth_chainId answers_ok = Inr (js ''0x89'')" "eth_accounts answers_ok = Inr [js ''0xabc'']"
    "approximates answers_ok = False"
    "eth_chainId answers_big = Inr (js ''9007199254740993'')"
    "eth_accounts answers_big = Inr [js ''0xabc'']" "approximates answers_big = False"
    "console new_connector = []" "update new_connector = []"
    by (simp_all add: answers_rejected_def answers_ok_def answers_big_def new_connector_def)
  show ?thesis
    using i1 i2 i3 p c
      connectEagerly_never_throws [where env = answers_enable_rejected and s = new_connector
        and e = "Error ''User closed modal''"]
      connectEagerly_never_throws [where env = answers_rejected and s = new_connector
        and e = "Error ''rejected''"]
      connectEagerly_never_throws [where env = answers_ok and s = new_connector
        and chain = "js ''0x89''" and accs = "[js ''0xabc'']"]
      connectEagerly_never_throws [where env = answers_big and s = new_connector
        and chain = "js ''9007199254740993''" and accs = "[js ''0xabc'']"]
    by simp
qed

lemma try_block_defined:
  assumes "provider s = Some web3"
  shows "provider (snd (try_block env s)) = Some web3"
    and "next_obj (snd (try_block env s)) = next_obj s"
    and "filter is_construction (calls (snd (try_block env s))) = filter is_construction (calls s)"
  using assms
  by (simp_all add: try_block_def init_defined send_defined emit_def is_construction_def
        split: sum.splits)

lemma activate_defined:
  assumes "provider s = Some web3"
  shows "provider (snd (activate env s)) = Some web3"
    and "next_obj (snd (activate env s)) = next_obj s"
    and "filter is_construction (calls (snd (activate env s))) = filter is_construction (calls s)"
  using try_block_defined [OF assms, of env]
  by (cases "try_block env s"; cases "fst (try_block env s)"; simp add: activate_def)+

lemma connectEagerly_defined:
  assumes "provider s = Some web3"
  shows "provider (snd (connectEagerly env s)) = Some web3"
    and "next_obj (snd (connectEagerly env s)) = next_obj s"
    and "filter is_construction (calls (snd (connectEagerly env s))) = filter is_construction (calls s)"
  using try_block_defined [OF assms, of env]
  by (cases "try_block env s"; cases "fst (try_block env s)"; simp add: connectEagerly_def)+

lemma wc_run_defined:
  "provider s = Some web3 \<Longrightarrow> Deactivate \<notin> set ops \<Longrightarrow>
   provider (wc_run ops s) = Some web3 \<and> next_obj (wc_run ops s) = next_obj s \<and>
   filter is_construction (calls (wc_run ops s)) = filter is_construction (calls s)"
proof (induction ops arbitrary: s)
  case Nil
  then show ?case by simp
next
  case (Cons x xs)
  from Cons.prems have x: "x \<noteq> Deactivate" and xs: "Deactivate \<notin> set xs" by auto
  have step: "provider (wc_step x s) = Some web3 \<and> next_obj (wc_step x s) = next_obj s \<and>
      filter is_construction (calls (wc_step x s)) = filter is_construction (calls s)"
    using x Cons.prems(1) by (cases x) (simp_all add: activate_defined connectEagerly_defined)
  with Cons.IH [of "wc_step x s"] xs show ?case by simp
qed

text \<open>
  Claim C9. With \<open>this.provider\<close> defined, \<open>init\<close> returns at once and changes
  nothing: no provider is constructed and \<open>enable\<close> is not called. So any sequence of
  calls of \<open>activate\<close> and \<open>connectEagerly\<close> with no \<open>deactivate\<close> among them keeps the
  same provider object, allocates nothing, and adds no construction or \<open>enable\<close> call.
  \<open>deactivate\<close> leaves \<open>provider\<close> undefined, and the next \<open>init\<close> (when the
  constructor does not throw) constructs a new WalletConnectProvider and a new
  Web3Provider and calls \<open>enable\<close>; the new provider is not the old one.
\<close>

theorem init_reuses_provider:
  "(provider s = Some w3p \<longrightarrow> init env s = (Inr (), s)) \<and>
   (provider s = Some w3p \<and> Deactivate \<notin> set ops \<longrightarrow>
      provider (wc_run ops s) = Some w3p \<and>
      next_obj (wc_run ops s) = next_obj s \<and>
      filter is_construction (calls (wc_run ops s)) = filter is_construction (calls s)) \<and>
   provider (snd (deactivate s)) = None \<and>
   (construct env = None \<longrightarrow>
      provider (snd (init env (snd (deactivate s)))) =
        Some (Web3Provider (Suc (next_obj s)) (next_obj s)) \<and>
      calls (snd (init env (snd (deactivate s)))) =
        calls s @ [New_WalletConnectProvider (next_obj s),
                   New_Web3Provider (Suc (next_obj s)) (next_obj s), Enable (next_obj s)]) \<and>
   (construct env = None \<and> provider s = Some w3p \<and> self w3p < next_obj s \<longrightarrow>
      provider (snd (init env (snd (deactivate s)))) \<noteq> Some w3p)"
proof -
  have d: "provider (snd (deactivate s)) = None" "next_obj (snd (deactivate s)) = next_obj s"
    "calls (snd (deactivate s)) = calls s"
    by (simp_all add: deactivate_def)
  have fresh: "construct env = None \<Longrightarrow>
      snd (init env (snd (deactivate s))) =
        (snd (deactivate s))\<lparr>provider := Some (Web3Provider (Suc (next_obj s)) (next_obj s)),
          next_obj := next_obj s + 2,
          calls := calls s @ [New_WalletConnectProvider (next_obj s),
                              New_Web3Provider (Suc (next_obj s)) (next_obj s),
                              Enable (next_obj s)]\<rparr>"
    using init_cases(2) [of "snd (deactivate s)" env] d by simp
  show ?thesis
    using wc_run_defined [of s w3p ops] d fresh
    by (auto simp add: init_defined)
qed

subsection \<open>Every reachable connector is allocated\<close>

lemma connected_connector_reached:
  "wc_run [Activate answers_ok] new_connector = connected_connector"
  by (simp add: activate_def try_block_def init_def send_def emit_def answers_ok_def
        new_connector_def connected_connector_def parseInt_eval)

lemma wc_allocated_init: "wc_allocated s \<Longrightarrow> wc_allocated (snd (init env s))"
  by (cases "provider s"; cases "construct env")
     (simp_all add: wc_allocated_def init_def Let_def split: sum.splits)

lemma wc_allocated_try_block: "wc_allocated s \<Longrightarrow> wc_allocated (snd (try_block env s))"
proof -
  assume a: "wc_allocated s"
  have "provider (snd (try_block env s)) = provider (snd (init env s)) \<and>
        next_obj (snd (try_block env s)) = next_obj (snd (init env s))"
    by (cases "init env s"; cases "fst (init env s)")
       (auto simp add: try_block_def send_def emit_def split: sum.splits option.splits prod.splits)
  with wc_allocated_init [OF a, of env] show ?thesis
    by (simp add: wc_allocated_def split: option.splits)
qed

lemma wc_allocated_step: "wc_allocated s \<Longrightarrow> wc_allocated (wc_step x s)"
proof (cases x)
  case (Activate env)
  assume "wc_allocated s"
  then have "wc_allocated (snd (try_block env s))" by (rule wc_allocated_try_block)
  with Activate show ?thesis
    by (cases "try_block env s"; cases "fst (try_block env s)")
       (simp_all add: activate_def wc_allocated_def split: option.splits)
next
  case (ConnectEagerly env)
  assume "wc_allocated s"
  then have "wc_allocated (snd (try_block env s))" by (rule wc_allocated_try_block)
  with ConnectEagerly show ?thesis
    by (cases "try_block env s"; cases "fst (try_block env s)")
       (simp_all add: connectEagerly_def wc_allocated_def split: option.splits)
next
  case Deactivate
  then show ?thesis by (simp add: deactivate_def wc_allocated_def)
qed

lemma wc_allocated_run: "wc_allocated s \<Longrightarrow> wc_allocated (wc_run ops s)"
  by (induction ops arbitrary: s) (simp_all add: wc_allocated_step)

lemma wc_allocated_new: "wc_allocated new_connector"
  by (simp add: wc_allocated_def new_connector_def)

theorem init_reuses_provider_witness:
  "provider connected_connector = Some (Web3Provider 1 0) \<and>
   init answers_ok connected_connector = (Inr (), connected_connector) \<and>
   Deactivate \<notin> set [Activate answers_rejected, ConnectEagerly answers_ok] \<and>
   provider (wc_run [Activate answers_rejected, ConnectEagerly answers_ok] connected_connector) =
     Some (Web3Provider 1 0) \<and>
   provider (snd (deactivate connected_connector)) = None \<and>
   construct answers_ok = None \<and>
   provider (snd (init answers_ok (snd (deactivate connected_connector)))) =
     Some (Web3Provider 3 2)"
proof -
  have c: "provider connected_connector = Some (Web3Provider 1 0)"
    "next_obj connected_connector = 2" "construct answers_ok = None"
    by (simp_all add: connected_connector_def answers_ok_def)
  have n: "Suc 2 = 3" by simp
  show ?thesis
    using c init_reuses_provider [where s = connected_connector and w3p = "Web3Provider 1 0"
        and env = answers_ok and ops = "[Activate answers_rejected, ConnectEagerly answers_ok]"]
    by (simp add: n)
qed

end
